theory Spec2Isabelle
  imports Main
begin

section \<open>Messages and exceptions\<close>

text \<open>
  A message is the Python dict built from one entry of the module-level table
  \<open>messages\<close>: the key \<open>'msg'\<close> holds the kind as a string, the key \<open>'value'\<close>,
  when present, holds a task or a result. Tasks and results are opaque Python values;
  one type variable stands for both.
\<close>

record 'v message =
  msg :: string
  mvalue :: "'v option"

definition messages_task :: "'v message" where
  "messages_task = \<lparr>msg = ''next'', mvalue = None\<rparr>"

definition messages_result :: "'v message" where
  "messages_result = \<lparr>msg = ''result'', mvalue = None\<rparr>"

definition messages_task_req :: "'v message" where
  "messages_task_req = \<lparr>msg = ''task_req'', mvalue = None\<rparr>"

definition messages_end :: "'v message" where
  "messages_end = \<lparr>msg = ''no_more_tasks'', mvalue = None\<rparr>"

text \<open>
  The exceptions the module can raise. A \<open>KeyError\<close> carries the missing key, as in
  Python: a source address for the assignment table, a field name for a message dict.
  \<open>RunTimeError\<close> is the name the two drivers raise (spelled so in the source);
  \<open>RuntimeError\<close> is what the dispatch handler raises on an unknown message kind.
\<close>

datatype key = SourceKey nat | FieldKey string

datatype exn =
    StopIteration
  | RuntimeError
  | RunTimeError
  | KeyError key
  | IndexError
  | ValueError
  | UnboundLocalError

section \<open>The root scheduler: class TaskQueueRoot\<close>

text \<open>
  The fields set by \<open>TaskQueueRoot.__init__\<close>. The counters \<open>_notified\<close>,
  \<open>_current\<close> and \<open>_remaining\<close> start at \<open>0\<close>, \<open>0\<close> and \<open>len(tasks)\<close>; they are only
  ever incremented, or decremented behind the test \<open>_remaining == 0\<close>, so they are
  natural numbers. \<open>njobs\<close> is positive whenever a driver constructs the object.
\<close>

record 'v TaskQueueRoot =
  njobs :: nat
  tasks :: "'v list"
  results :: "nat \<rightharpoonup> 'v"
  assignments :: "nat \<rightharpoonup> nat"
  notified :: nat
  current :: nat
  remaining :: nat

definition TaskQueueRoot_init :: "'v list \<Rightarrow> nat \<Rightarrow> 'v TaskQueueRoot" where
  "TaskQueueRoot_init ts n =
     \<lparr>njobs = n, tasks = ts, results = Map.empty, assignments = Map.empty,
      notified = 0, current = 0, remaining = length ts\<rparr>"

text \<open>\<open>insert_result\<close>: the dictionary lookup raises \<open>KeyError\<close> on a missing source.\<close>

definition insert_result :: "nat \<Rightarrow> 'v \<Rightarrow> 'v TaskQueueRoot \<Rightarrow> exn + 'v TaskQueueRoot" where
  "insert_result source_id result q =
     (case assignments q source_id of
        None \<Rightarrow> Inl (KeyError (SourceKey source_id))
      | Some task_id \<Rightarrow> Inr (q\<lparr>results := (results q)(task_id \<mapsto> result)\<rparr>))"

text \<open>
  \<open>assign_task\<close> returns the updated scheduler and the message it sends, with its
  destination, on channel 2. The list read \<open>self.tasks[task_id]\<close> comes before every
  update, so an out-of-range index leaves the object untouched.
\<close>

definition assign_task ::
  "nat \<Rightarrow> 'v TaskQueueRoot \<Rightarrow> exn + ('v TaskQueueRoot \<times> (nat \<times> 'v message))" where
  "assign_task source_id q =
     (if remaining q = 0 then
        Inr (q\<lparr>notified := notified q + 1\<rparr>, (source_id, messages_end))
      else
        (let task_id = current q in
         if task_id < length (tasks q) then
           Inr (q\<lparr>assignments := (assignments q)(source_id \<mapsto> task_id),
                   current := current q + 1,
                   remaining := remaining q - 1\<rparr>,
                (source_id, messages_task\<lparr>mvalue := Some (tasks q ! task_id)\<rparr>))
         else Inl IndexError))"

text \<open>
  \<open>handle_assignment\<close> receives one message from \<open>status.source\<close> and dispatches on
  its kind. The result is the exception raised (if any), the scheduler as the call
  leaves it, and the messages sent. \<open>StopIteration\<close> is raised after the message has
  been handled, so the updates and the reply stay in place.
\<close>

definition handle_assignment ::
  "nat \<Rightarrow> 'v message \<Rightarrow> 'v TaskQueueRoot
     \<Rightarrow> exn option \<times> 'v TaskQueueRoot \<times> (nat \<times> 'v message) list" where
  "handle_assignment source m q =
     (let dispatched =
        (if msg m = msg (messages_result :: 'v message) then
           (case mvalue m of
              None \<Rightarrow> Inl (KeyError (FieldKey ''value''))
            | Some v \<Rightarrow>
                (case insert_result source v q of
                   Inl e \<Rightarrow> Inl e
                 | Inr q' \<Rightarrow> Inr (q', [])))
         else if msg m = msg (messages_task_req :: 'v message) then
           (case assign_task source q of
              Inl e \<Rightarrow> Inl e
            | Inr (q', out) \<Rightarrow> Inr (q', [out]))
         else Inl RuntimeError)
      in case dispatched of
           Inl e \<Rightarrow> (Some e, q, [])
         | Inr (q', out) \<Rightarrow>
             (if notified q' \<ge> njobs q' then (Some StopIteration, q', out)
              else (None, q', out)))"

text \<open>
  How the coordinator's loop stands or has ended: stopped by the handler's
  \<open>StopIteration\<close>, aborted by another exception, or still blocked in its wait.
\<close>

datatype ending = Stopped | Raised exn | Blocked

text \<open>
  Modelled from the spec: \<open>probe_loop\<close> belongs to the communication layer
  (\<open>parallel_analysis_interface\<close>), which is not among the sources. The spec, section 6:
  it blocks, invoking the handler for each arriving message on the channel until the
  handler signals stop by raising the queue's internal stop condition. The arrivals are
  the pairs of sender address and message in the order the loop probes them. When the
  arrivals are used up the loop is still blocked in its wait: that is \<open>Blocked\<close>, not a
  return. Any exception other than \<open>StopIteration\<close> leaves the loop.
\<close>

fun probe_loop ::
  "(nat \<times> 'v message) list \<Rightarrow> 'v TaskQueueRoot
     \<Rightarrow> ending \<times> 'v TaskQueueRoot \<times> (nat \<times> 'v message) list" where
  "probe_loop [] q = (Blocked, q, [])"
| "probe_loop ((source, m) # rest) q =
     (case handle_assignment source m q of
        (Some e, q', out) \<Rightarrow>
          (if e = StopIteration then (Stopped, q', out) else (Raised e, q', out))
      | (None, q', out) \<Rightarrow>
          (case probe_loop rest q' of (r, q'', out') \<Rightarrow> (r, q'', out @ out')))"


text \<open>
  \<open>TaskQueueRoot.run\<close>: the probe loop on channel 1, then \<open>finalize\<close> broadcasts the
  result mapping from the root, and the broadcast value is returned.
\<close>

datatype 'r outcome = Returns 'r | Raises exn | Hangs

datatype 'v effect =
    PushWithIds "nat list"
  | PopComm
  | Send nat nat "'v message"
  | SubBcast
  | SubBarrier
  | Bcast "nat \<rightharpoonup> 'v"
  | Yield 'v
  | YieldSlot 'v
  | StorageUpdate "nat \<rightharpoonup> 'v"

definition sends :: "(nat \<times> 'v message) list \<Rightarrow> 'v effect list" where
  "sends out = map (\<lambda>(dest, m). Send dest 2 m) out"

definition TaskQueueRoot_run ::
  "(nat \<times> 'v message) list \<Rightarrow> 'v TaskQueueRoot \<Rightarrow> 'v effect list \<times> (nat \<rightharpoonup> 'v) outcome" where
  "TaskQueueRoot_run arrivals q =
     (case probe_loop arrivals q of
        (Stopped, q', out) \<Rightarrow> (sends out @ [Bcast (results q')], Returns (results q'))
      | (Raised e, q', out) \<Rightarrow> (sends out, Raises e)
      | (Blocked, q', out) \<Rightarrow> (sends out, Hangs))"

section \<open>The worker agent: class TaskQueueNonRoot\<close>

text \<open>
  Only the leader of a subgroup (\<open>subcomm.rank == 0\<close>) talks to the coordinator; every
  member then obtains the reply from the subgroup broadcast. \<open>get_next\<close> blocks in its
  receive, so it is split at that point: what is sent before, and what is done with the
  message obtained.
\<close>

definition get_next_send :: "bool \<Rightarrow> 'v effect list" where
  "get_next_send leader = (if leader then [Send 0 1 messages_task_req] else [])"

definition get_next_reply :: "'v message \<Rightarrow> exn + 'v" where
  "get_next_reply m =
     (if msg m = msg (messages_end :: 'v message) then Inl StopIteration
      else (case mvalue m of
              None \<Rightarrow> Inl (KeyError (FieldKey ''value''))
            | Some v \<Rightarrow> Inr v))"

definition result_message :: "'v \<Rightarrow> 'v message" where
  "result_message result = messages_result\<lparr>mvalue := Some result\<rparr>"

definition send_result :: "bool \<Rightarrow> 'v \<Rightarrow> 'v effect list" where
  "send_result leader result =
     (let new_msg = result_message result
      in (if leader then [Send 0 1 new_msg] else []) @ [SubBarrier])"

text \<open>
  The three loops over the queue's iterator: \<open>TaskQueueNonRoot.run\<close> applies the
  callable and sends the result; \<open>dynamic_parallel_objects\<close> without storage yields the
  task and sends nothing; with storage it yields a fresh slot with the task and sends
  what the consumer left in the slot (the function gives that value for each task).
\<close>

datatype 'v usage = RunCallable "'v \<Rightarrow> 'v" | YieldTasks | YieldSlots "'v \<Rightarrow> 'v"

fun loop_body :: "'v usage \<Rightarrow> bool \<Rightarrow> 'v \<Rightarrow> 'v effect list" where
  "loop_body (RunCallable callable) leader task = send_result leader (callable task)"
| "loop_body YieldTasks leader task = [Yield task]"
| "loop_body (YieldSlots written) leader task =
     YieldSlot task # send_result leader (written task)"

text \<open>
  The iteration \<open>for task in my_q\<close>, over the messages the process obtains from the
  successive subgroup broadcasts. A \<open>StopIteration\<close> raised inside the generator
  \<open>__iter__\<close> ends the iteration (Python 2). With no message left the process is
  blocked in the receive or the broadcast.
\<close>

fun for_task_in ::
  "'v usage \<Rightarrow> bool \<Rightarrow> 'v message list \<Rightarrow> 'v effect list \<times> ending" where
  "for_task_in u leader [] = (get_next_send leader, Blocked)"
| "for_task_in u leader (m # rest) =
     (case get_next_reply m of
        Inl e \<Rightarrow>
          (get_next_send leader @ [SubBcast],
           if e = StopIteration then Stopped else Raised e)
      | Inr task \<Rightarrow>
          (case for_task_in u leader rest of
             (effs, r) \<Rightarrow>
               (get_next_send leader @ [SubBcast] @ loop_body u leader task @ effs, r)))"

text \<open>
  \<open>TaskQueueNonRoot.run\<close>; \<open>final\<close> is the mapping the closing broadcast delivers,
  that is, the root's result mapping.
\<close>

definition TaskQueueNonRoot_run ::
  "('v \<Rightarrow> 'v) \<Rightarrow> bool \<Rightarrow> 'v message list \<Rightarrow> (nat \<rightharpoonup> 'v)
     \<Rightarrow> 'v effect list \<times> (nat \<rightharpoonup> 'v) outcome" where
  "TaskQueueNonRoot_run callable leader replies final =
     (case for_task_in (RunCallable callable) leader replies of
        (effs, Stopped) \<Rightarrow> (effs @ [Bcast final], Returns final)
      | (effs, Raised e) \<Rightarrow> (effs, Raises e)
      | (effs, Blocked) \<Rightarrow> (effs, Hangs))"

section \<open>The process group partitioner\<close>

text \<open>
  \<open>numpy.array_split(ary, n)\<close>, after numpy's documentation: for a length \<open>l\<close> it
  returns \<open>l % n\<close> sub-arrays of size \<open>l//n + 1\<close> and the rest of size \<open>l//n\<close>, cut
  from \<open>ary\<close> in order; a number of sections that is not positive is a \<open>ValueError\<close>.
\<close>

definition section_sizes :: "nat \<Rightarrow> nat \<Rightarrow> nat list" where
  "section_sizes l n =
     replicate (l mod n) (l div n + 1) @ replicate (n - l mod n) (l div n)"

fun sub_arys :: "nat list \<Rightarrow> 'a list \<Rightarrow> 'a list list" where
  "sub_arys [] xs = []"
| "sub_arys (k # ks) xs = take k xs # sub_arys ks (drop k xs)"

definition array_split :: "'a list \<Rightarrow> int \<Rightarrow> exn + 'a list list" where
  "array_split ary n =
     (if n \<le> 0 then Inl ValueError
      else Inr (sub_arys (section_sizes (length ary) (nat n)) ary))"

definition arange :: "nat \<Rightarrow> nat \<Rightarrow> nat list" where
  "arange a b = [a..<b]"

text \<open>
  The loop \<open>for i, comm_set in enumerate(all_new_comms)\<close> with its \<open>break\<close>: the first
  index whose group holds the rank. If none does, \<open>my_new_id\<close> is never bound.
\<close>

fun my_new_id :: "nat \<Rightarrow> nat list list \<Rightarrow> nat option" where
  "my_new_id my_rank [] = None"
| "my_new_id my_rank (comm_set # others) =
     (if my_rank \<in> set comm_set then Some 0
      else map_option Suc (my_new_id my_rank others))"

text \<open>
  Both drivers open with the same statements (lines 133--150 and 161--178): the check
  of \<open>parallel_capable\<close>, the default and the check of \<open>njobs\<close>, the split of the
  addresses \<open>1 .. my_size - 1\<close>, the coordinator's group \<open>[0]\<close> inserted in front, and
  the search for the caller's group. \<open>parallel_capable\<close> is a flag of the
  communication layer and is the parameter \<open>flag\<close> here. The result is the job count
  in force, the groups and the caller's group index.
\<close>

definition partition_processes ::
  "bool \<Rightarrow> nat \<Rightarrow> nat \<Rightarrow> int \<Rightarrow> exn + (int \<times> nat list list \<times> nat)" where
  "partition_processes flag my_size my_rank njobs0 =
     (if \<not> flag then Inl RunTimeError
      else
        (let n = (if njobs0 \<le> 0 then int my_size - 1 else njobs0) in
         if n \<ge> int my_size then Inl RunTimeError
         else
           (case array_split (arange 1 my_size) n of
              Inl e \<Rightarrow> Inl e
            | Inr split \<Rightarrow>
                (let all_new_comms = [0] # split in
                 case my_new_id my_rank all_new_comms of
                   None \<Rightarrow> Inl UnboundLocalError
                 | Some i \<Rightarrow> Inr (n, all_new_comms, i)))))"


section \<open>The drivers\<close>

text \<open>
  What one process meets while it runs a driver: the flag and the size and rank the
  communicator reports; on the coordinator the arrivals on channel 1, on a worker the
  messages its subgroup broadcast delivers and the mapping the closing broadcast
  delivers.
\<close>

record 'v world =
  capable :: bool
  my_size :: nat
  my_rank :: nat
  arrivals :: "(nat \<times> 'v message) list"
  replies :: "'v message list"
  final :: "nat \<rightharpoonup> 'v"

text \<open>
  \<open>task_queue\<close>: the effects of the call on this process, in order, and its outcome.
  The subgroup is pushed, the queue object is built, the communicator stack is popped,
  and then the queue is run. The pop takes the subgroup off the stack; the worker's
  queue object keeps the subgroup communicator it was built with and goes on using it
  for its broadcasts and barriers.
\<close>

definition task_queue ::
  "('v \<Rightarrow> 'v) \<Rightarrow> 'v list \<Rightarrow> int \<Rightarrow> 'v world
     \<Rightarrow> 'v effect list \<times> (nat \<rightharpoonup> 'v) outcome" where
  "task_queue func ts njobs0 w =
     (case partition_processes (capable w) (my_size w) (my_rank w) njobs0 of
        Inl e \<Rightarrow> ([], Raises e)
      | Inr (n, all_new_comms, i) \<Rightarrow>
          (let ids = all_new_comms ! i;
               before = [PushWithIds ids, PopComm]
           in if my_rank w = 0 then
                (case TaskQueueRoot_run (arrivals w) (TaskQueueRoot_init ts (nat n)) of
                   (effs, r) \<Rightarrow> (before @ effs, r))
              else
                (case TaskQueueNonRoot_run func (hd ids = my_rank w) (replies w) (final w) of
                   (effs, r) \<Rightarrow> (before @ effs, r))))"

text \<open>
  \<open>dynamic_parallel_objects\<close>, a generator, driven to exhaustion by its consumer.
  \<open>storage\<close> is \<open>None\<close> when no store is supplied; otherwise it gives what the consumer
  writes into the slot yielded with each task. The coordinator runs the probe loop and
  yields nothing. The closing broadcast and the pop are reached only when the loop or
  the iteration ends without an exception.
\<close>

definition dynamic_parallel_objects ::
  "'v list \<Rightarrow> int \<Rightarrow> ('v \<Rightarrow> 'v) option \<Rightarrow> 'v world \<Rightarrow> 'v effect list \<times> unit outcome" where
  "dynamic_parallel_objects ts njobs0 storage w =
     (case partition_processes (capable w) (my_size w) (my_rank w) njobs0 of
        Inl e \<Rightarrow> ([], Raises e)
      | Inr (n, all_new_comms, i) \<Rightarrow>
          (let ids = all_new_comms ! i;
               publish = (\<lambda>my_results.
                  (case storage of
                     None \<Rightarrow> []
                   | Some _ \<Rightarrow> [Bcast my_results, StorageUpdate my_results]))
           in if my_rank w = 0 then
                (case probe_loop (arrivals w) (TaskQueueRoot_init ts (nat n)) of
                   (Stopped, q', out) \<Rightarrow>
                     (PushWithIds ids # sends out @ publish (results q') @ [PopComm],
                      Returns ())
                 | (Raised e, q', out) \<Rightarrow> (PushWithIds ids # sends out, Raises e)
                 | (Blocked, q', out) \<Rightarrow> (PushWithIds ids # sends out, Hangs))
              else
                (case for_task_in
                        (case storage of None \<Rightarrow> YieldTasks | Some g \<Rightarrow> YieldSlots g)
                        (hd ids = my_rank w) (replies w) of
                   (effs, Stopped) \<Rightarrow>
                     (PushWithIds ids # effs @ publish (final w) @ [PopComm], Returns ())
                 | (effs, Raised e) \<Rightarrow> (PushWithIds ids # effs, Raises e)
                 | (effs, Blocked) \<Rightarrow> (PushWithIds ids # effs, Hangs))))"

section \<open>Notions used by the properties\<close>

text \<open>The senders of the task requests among the arrivals, in arrival order.\<close>

definition requesters :: "(nat \<times> 'v message) list \<Rightarrow> nat list" where
  "requesters arrs = map fst (filter (\<lambda>(s, m). msg m = ''task_req'') arrs)"

text \<open>The task-delivery message for task id \<open>i\<close>.\<close>

definition delivery :: "'v list \<Rightarrow> nat \<Rightarrow> 'v message" where
  "delivery ts i = messages_task\<lparr>mvalue := Some (ts ! i)\<rparr>"

text \<open>
  What a run of the probe loop from \<open>q\<close> to \<open>q'\<close> has sent: task deliveries for the
  ids from \<open>current q\<close> up to \<open>current q'\<close>, then only terminate messages, addressed
  to the requesters in arrival order.
\<close>

definition replies_ok ::
  "(nat \<times> 'v message) list \<Rightarrow> 'v TaskQueueRoot \<Rightarrow> 'v TaskQueueRoot
     \<Rightarrow> (nat \<times> 'v message) list \<Rightarrow> bool" where
  "replies_ok arrs q q' out \<longleftrightarrow>
     tasks q' = tasks q \<and> njobs q' = njobs q \<and> current q \<le> current q' \<and>
     notified q \<le> notified q' \<and>
     current q' + remaining q' = current q + remaining q \<and>
     (notified q < notified q' \<longrightarrow> remaining q' = 0) \<and>
     map snd out = map (delivery (tasks q)) [current q..<current q']
                     @ replicate (notified q' - notified q) messages_end \<and>
     map fst out = take (length out) (requesters arrs)"

text \<open>
  Every result-delivery among the arrivals is preceded by a task assignment to the same
  source: an earlier task request of that source which the coordinator answers with a
  task, that is, one with fewer than \<open>L\<close> task requests before it.
\<close>

definition results_follow_assignments :: "nat \<Rightarrow> (nat \<times> 'v message) list \<Rightarrow> bool" where
  "results_follow_assignments L arrs \<longleftrightarrow>
     (\<forall>i < length arrs. msg (snd (arrs ! i)) = ''result'' \<longrightarrow>
        (\<exists>j < i. fst (arrs ! j) = fst (arrs ! i) \<and> msg (snd (arrs ! j)) = ''task_req'' \<and>
                 length (requesters (take j arrs)) < L))"

text \<open>The same, started in the middle of a run, from the scheduler \<open>q\<close>.\<close>

definition follow_from :: "'v TaskQueueRoot \<Rightarrow> (nat \<times> 'v message) list \<Rightarrow> bool" where
  "follow_from q arrs \<longleftrightarrow>
     (\<forall>i < length arrs. msg (snd (arrs ! i)) = ''result'' \<longrightarrow>
        fst (arrs ! i) \<in> dom (assignments q) \<or>
        (\<exists>j < i. fst (arrs ! j) = fst (arrs ! i) \<and> msg (snd (arrs ! j)) = ''task_req'' \<and>
                 length (requesters (take j arrs)) < remaining q))"

text \<open>
  The subgroup is pushed first and popped last, and not popped in between: the pop
  comes only after everything else the call does.
\<close>

definition popped_after_run :: "'v effect list \<Rightarrow> bool" where
  "popped_after_run effs =
     (case effs of
        PushWithIds ids # rest \<Rightarrow>
          rest \<noteq> [] \<and> last rest = PopComm \<and> PopComm \<notin> set (butlast rest)
      | _ \<Rightarrow> False)"

section \<open>Coordinator and subgroup leaders running together\<close>





















section \<open>The state of the protocol, for the proofs\<close>
















section \<open>The handler and the probe loop\<close>

lemmas message_defs = messages_task_def messages_result_def messages_task_req_def messages_end_def

lemma handle_result:
  "msg m = ''result'' \<Longrightarrow>
   handle_assignment s m q =
     (case mvalue m of None \<Rightarrow> (Some (KeyError (FieldKey ''value'')), q, [])
      | Some v \<Rightarrow>
        (case assignments q s of None \<Rightarrow> (Some (KeyError (SourceKey s)), q, [])
         | Some t \<Rightarrow> (if njobs q \<le> notified q then Some StopIteration else None,
                       q\<lparr>results := (results q)(t \<mapsto> v)\<rparr>, [])))"
  by (simp add: handle_assignment_def insert_result_def message_defs split: option.splits)

lemma handle_task_req:
  "msg m = ''task_req'' \<Longrightarrow>
   handle_assignment s m q =
     (if remaining q = 0 then
        (if njobs q \<le> notified q + 1 then Some StopIteration else None,
         q\<lparr>notified := notified q + 1\<rparr>, [(s, messages_end)])
      else if current q < length (tasks q) then
        (if njobs q \<le> notified q then Some StopIteration else None,
         q\<lparr>assignments := (assignments q)(s \<mapsto> current q),
            current := current q + 1, remaining := remaining q - 1\<rparr>,
         [(s, delivery (tasks q) (current q))])
      else (Some IndexError, q, []))"
  by (simp add: handle_assignment_def assign_task_def message_defs delivery_def Let_def)

lemma handle_unknown:
  "msg m \<noteq> ''result'' \<Longrightarrow> msg m \<noteq> ''task_req'' \<Longrightarrow>
   handle_assignment s m q = (Some RuntimeError, q, [])"
  by (simp add: handle_assignment_def message_defs)

lemma probe_loop_append:
  "probe_loop pre q = (Blocked, q1, out1) \<Longrightarrow>
   probe_loop (pre @ xs) q =
     (case probe_loop xs q1 of (r, q2, out2) \<Rightarrow> (r, q2, out1 @ out2))"
proof (induction pre arbitrary: q out1)
  case Nil
  then show ?case by (simp split: prod.splits)
next
  case (Cons a pre)
  obtain s m where a: "a = (s, m)" by (cases a)
  obtain e qa oa where h: "handle_assignment s m q = (e, qa, oa)" by (cases "handle_assignment s m q")
  show ?case
  proof (cases e)
    case None
    obtain r' q' o' where p: "probe_loop pre qa = (r', q', o')" by (cases "probe_loop pre qa")
    with Cons.prems a h None have "r' = Blocked" "q' = q1" "out1 = oa @ o'" by auto
    with Cons.IH[of qa o'] p have "probe_loop (pre @ xs) qa =
     (case probe_loop xs q1 of (r, q2, out2) \<Rightarrow> (r, q2, o' @ out2))" by simp
    with a h None \<open>out1 = oa @ o'\<close> show ?thesis by (simp split: prod.splits)
  next
    case (Some ex)
    with Cons.prems a h show ?thesis by (simp split: if_splits)
  qed
qed



lemma replies_ok_refl: "replies_ok arrs q q []"
  by (simp add: replies_ok_def)

lemma replies_ok_result:
  "msg m = ''result'' \<Longrightarrow> replies_ok rest (q\<lparr>results := rs\<rparr>) q' out \<Longrightarrow>
   replies_ok ((s, m) # rest) q q' out"
  by (simp add: replies_ok_def requesters_def)

lemma replies_ok_other:
  "msg m \<noteq> ''task_req'' \<Longrightarrow> replies_ok ((s, m) # rest) q q []"
  by (simp add: replies_ok_def requesters_def)

lemma replies_ok_end:
  assumes "msg m = ''task_req''" "remaining q = 0"
    and "replies_ok rest (q\<lparr>notified := notified q + 1\<rparr>) q' out"
  shows "replies_ok ((s, m) # rest) q q' ((s, messages_end) # out)"
proof -
  from assms(2,3) have c: "current q' = current q" "remaining q' = 0"
    and n: "notified q + 1 \<le> notified q'"
    by (auto simp: replies_ok_def)
  from n have "notified q' - notified q = Suc (notified q' - (notified q + 1))"
    by simp
  with assms c n show ?thesis
    by (simp add: replies_ok_def requesters_def)
qed

lemma replies_ok_task:
  assumes "msg m = ''task_req''" "remaining q \<noteq> 0"
    and "replies_ok rest (q\<lparr>assignments := a, current := current q + 1,
            remaining := remaining q - 1\<rparr>) q' out"
  shows "replies_ok ((s, m) # rest) q q' ((s, delivery (tasks q) (current q)) # out)"
proof -
  from assms(3) have c: "current q + 1 \<le> current q'"
    by (auto simp: replies_ok_def)
  then have "[current q..<current q'] = current q # [current q + 1..<current q']"
    by (simp add: upt_conv_Cons)
  with assms c show ?thesis
    by (simp add: replies_ok_def requesters_def)
qed

lemma probe_loop_replies:
  "probe_loop arrs q = (r, q', out) \<Longrightarrow> replies_ok arrs q q' out"
proof (induction arrs arbitrary: q r q' out)
  case Nil
  then show ?case by (simp add: replies_ok_refl)
next
  case (Cons a rest)
  obtain s m where a: "a = (s, m)" by (cases a)
  consider (res) "msg m = ''result''" | (req) "msg m = ''task_req''"
    | (unk) "msg m \<noteq> ''result''" "msg m \<noteq> ''task_req''" by blast
  then show ?case
  proof cases
    case res
    show ?thesis
    proof (cases "mvalue m")
      case None
      with Cons.prems a res show ?thesis
        by (auto simp: handle_result replies_ok_other)
    next
      case (Some v)
      show ?thesis
      proof (cases "assignments q s")
        case None
        with Cons.prems a res Some show ?thesis
          by (auto simp: handle_result replies_ok_other)
      next
        case (Some t)
        let ?q1 = "q\<lparr>results := (results q)(t \<mapsto> v)\<rparr>"
        show ?thesis
        proof (cases "njobs q \<le> notified q")
          case True
          with Cons.prems a res Some \<open>mvalue m = Some v\<close> have "q' = ?q1" "out = []"
            by (auto simp: handle_result)
          then show ?thesis using a res replies_ok_result[OF res replies_ok_refl]
            by simp
        next
          case False
          obtain r2 q2 o2 where p: "probe_loop rest ?q1 = (r2, q2, o2)"
            by (cases "probe_loop rest ?q1")
          with Cons.prems a res Some \<open>mvalue m = Some v\<close> False
          have "q' = q2" "out = o2" by (auto simp: handle_result)
          with Cons.IH[OF p] a res show ?thesis
            by (simp add: replies_ok_result)
        qed
      qed
    qed
  next
    case req
    show ?thesis
    proof (cases "remaining q = 0")
      case True
      let ?q1 = "q\<lparr>notified := notified q + 1\<rparr>"
      show ?thesis
      proof (cases "njobs q \<le> notified q + 1")
        case True
        with Cons.prems a req \<open>remaining q = 0\<close>
        have "q' = ?q1" "out = [(s, messages_end)]"
          by (auto simp: handle_task_req)
        then show ?thesis
          using a replies_ok_end[OF req \<open>remaining q = 0\<close> replies_ok_refl] by simp
      next
        case False
        obtain r2 q2 o2 where p: "probe_loop rest ?q1 = (r2, q2, o2)"
          by (cases "probe_loop rest ?q1")
        with Cons.prems a req True False
        have "q' = q2" "out = (s, messages_end) # o2" by (auto simp: handle_task_req)
        with Cons.IH[OF p] a show ?thesis
          using replies_ok_end[OF req True] by simp
      qed
    next
      case False
      note rem = False
      show ?thesis
      proof (cases "current q < length (tasks q)")
        case False
        with Cons.prems a req rem have "q' = q" "out = []"
          by (auto simp: handle_task_req)
        then show ?thesis by (simp add: replies_ok_refl)
      next
        case True
        let ?q1 = "q\<lparr>assignments := (assignments q)(s \<mapsto> current q),
            current := current q + 1, remaining := remaining q - 1\<rparr>"
        show ?thesis
        proof (cases "njobs q \<le> notified q")
          case True
          with Cons.prems a req rem \<open>current q < length (tasks q)\<close>
          have "q' = ?q1" "out = [(s, delivery (tasks q) (current q))]"
            by (auto simp: handle_task_req)
          then show ?thesis
            using a replies_ok_task[OF req rem replies_ok_refl] by simp
        next
          case False
          obtain r2 q2 o2 where p: "probe_loop rest ?q1 = (r2, q2, o2)"
            by (cases "probe_loop rest ?q1")
          with Cons.prems a req rem True False
          have "q' = q2" "out = (s, delivery (tasks q) (current q)) # o2"
            by (auto simp: handle_task_req)
          with Cons.IH[OF p] a show ?thesis
            using replies_ok_task[OF req rem] by simp
        qed
      qed
    qed
  next
    case unk
    with Cons.prems a have "q' = q" "out = []"
      by (auto simp: handle_unknown)
    then show ?thesis by (simp add: replies_ok_refl)
  qed
qed


lemma handle_summary:
  assumes "handle_assignment s m q = (e, q1, o1)"
  shows "njobs q1 = njobs q \<and> tasks q1 = tasks q \<and>
         (notified q1 = notified q \<or> notified q1 = notified q + 1) \<and>
         (e = Some StopIteration \<longrightarrow> njobs q \<le> notified q1) \<and>
         (e = None \<longrightarrow> notified q1 < njobs q) \<and>
         (\<forall>x. e = Some x \<longrightarrow> x \<noteq> StopIteration \<longrightarrow> q1 = q \<and> o1 = [])"
proof -
  consider (res) "msg m = ''result''" | (req) "msg m = ''task_req''"
    | (unk) "msg m \<noteq> ''result''" "msg m \<noteq> ''task_req''" by blast
  then show ?thesis
  proof cases
    case res
    with assms show ?thesis
      by (auto simp: handle_result split: option.splits if_splits)
  next
    case req
    with assms show ?thesis
      by (auto simp: handle_task_req split: if_splits)
  next
    case unk
    with assms show ?thesis by (auto simp: handle_unknown)
  qed
qed

lemma probe_loop_ending:
  "probe_loop arrs q = (r, q', out) \<Longrightarrow> notified q < njobs q \<Longrightarrow>
   njobs q' = njobs q \<and> (r = Stopped \<longrightarrow> notified q' = njobs q) \<and>
   (r = Blocked \<longrightarrow> notified q' < njobs q) \<and> notified q' \<le> njobs q"
proof (induction arrs arbitrary: q r q' out)
  case Nil
  then show ?case by auto
next
  case (Cons a rest)
  obtain s m where a: "a = (s, m)" by (cases a)
  obtain e q1 o1 where h: "handle_assignment s m q = (e, q1, o1)"
    by (cases "handle_assignment s m q")
  note sm = handle_summary[OF h]
  show ?case
  proof (cases e)
    case None
    obtain r2 q2 o2 where p: "probe_loop rest q1 = (r2, q2, o2)"
      by (cases "probe_loop rest q1")
    from None sm have lt: "notified q1 < njobs q1" by simp
    from Cons.prems(1) a h None p have "r = r2" "q' = q2" by auto
    with Cons.IH[OF p lt] sm show ?thesis by simp
  next
    case (Some x)
    show ?thesis
    proof (cases "x = StopIteration")
      case True
      with Cons.prems a h Some have "r = Stopped" "q' = q1" by auto
      with sm Some True Cons.prems(2) show ?thesis by auto
    next
      case False
      with Cons.prems a h Some have "r = Raised x" "q' = q1" by auto
      with sm Some False Cons.prems(2) show ?thesis by auto
    qed
  qed
qed



lemma follow_from_head:
  "follow_from q ((s, m) # rest) \<Longrightarrow> msg m = ''result'' \<Longrightarrow> s \<in> dom (assignments q)"
  unfolding follow_from_def by (drule spec[of _ 0]) auto

lemma follow_from_tail:
  assumes f: "follow_from q ((s, m) # rest)"
    and dm: "dom (assignments q) \<subseteq> dom (assignments q1)"
    and rq: "msg m = ''task_req'' \<Longrightarrow>
             (remaining q \<noteq> 0 \<longrightarrow> s \<in> dom (assignments q1)) \<and> remaining q1 = remaining q - 1"
    and ot: "msg m \<noteq> ''task_req'' \<Longrightarrow> remaining q1 = remaining q"
  shows "follow_from q1 rest"
  unfolding follow_from_def
proof (intro allI impI)
  fix i assume i: "i < length rest" and r: "msg (snd (rest ! i)) = ''result''"
  from f i r have "fst (rest ! i) \<in> dom (assignments q) \<or>
        (\<exists>j < Suc i. fst (((s, m) # rest) ! j) = fst (rest ! i) \<and>
           msg (snd (((s, m) # rest) ! j)) = ''task_req'' \<and>
           length (requesters (take j ((s, m) # rest))) < remaining q)"
    unfolding follow_from_def by (drule_tac x = "Suc i" in spec) simp
  then show "fst (rest ! i) \<in> dom (assignments q1) \<or>
        (\<exists>j < i. fst (rest ! j) = fst (rest ! i) \<and> msg (snd (rest ! j)) = ''task_req'' \<and>
                 length (requesters (take j rest)) < remaining q1)"
  proof
    assume "fst (rest ! i) \<in> dom (assignments q)"
    with dm show ?thesis by blast
  next
    assume "\<exists>j < Suc i. fst (((s, m) # rest) ! j) = fst (rest ! i) \<and>
           msg (snd (((s, m) # rest) ! j)) = ''task_req'' \<and>
           length (requesters (take j ((s, m) # rest))) < remaining q"
    then obtain j where j: "j < Suc i" "fst (((s, m) # rest) ! j) = fst (rest ! i)"
      "msg (snd (((s, m) # rest) ! j)) = ''task_req''"
      "length (requesters (take j ((s, m) # rest))) < remaining q" by blast
    show ?thesis
    proof (cases j)
      case 0
      with j have "msg m = ''task_req''" "s = fst (rest ! i)" "remaining q \<noteq> 0" by auto
      with rq show ?thesis by auto
    next
      case (Suc j')
      with j have j': "j' < i" "fst (rest ! j') = fst (rest ! i)"
        "msg (snd (rest ! j')) = ''task_req''" by auto
      have "length (requesters (take j' rest)) < remaining q1"
      proof (cases "msg m = ''task_req''")
        case True
        with j(4) Suc rq show ?thesis by (auto simp: requesters_def)
      next
        case False
        with j(4) Suc ot show ?thesis by (auto simp: requesters_def)
      qed
      with j' show ?thesis by blast
    qed
  qed
qed

lemma probe_loop_no_KeyError:
  "follow_from q arrs \<Longrightarrow> probe_loop arrs q = (r, q', out) \<Longrightarrow>
   r \<noteq> Raised (KeyError (SourceKey s0))"
proof (induction arrs arbitrary: q r q' out)
  case Nil
  then show ?case by auto
next
  case (Cons a rest)
  obtain s m where a: "a = (s, m)" by (cases a)
  note f = Cons.prems(1)[unfolded a]
  consider (res) "msg m = ''result''" | (req) "msg m = ''task_req''"
    | (unk) "msg m \<noteq> ''result''" "msg m \<noteq> ''task_req''" by blast
  then show ?case
  proof cases
    case res
    from follow_from_head[OF f res] obtain t where t: "assignments q s = Some t" by auto
    show ?thesis
    proof (cases "mvalue m")
      case None
      with Cons.prems(2) a res show ?thesis by (auto simp: handle_result)
    next
      case (Some v)
      let ?q1 = "q\<lparr>results := (results q)(t \<mapsto> v)\<rparr>"
      have f1: "follow_from ?q1 rest"
        by (rule follow_from_tail[OF f]) (use res in auto)
      obtain r2 q2 o2 where p: "probe_loop rest ?q1 = (r2, q2, o2)"
        by (cases "probe_loop rest ?q1")
      from Cons.IH[OF f1 p] Cons.prems(2) a res Some t p show ?thesis
        by (auto simp: handle_result split: if_splits)
    qed
  next
    case req
    show ?thesis
    proof (cases "remaining q = 0")
      case True
      let ?q1 = "q\<lparr>notified := notified q + 1\<rparr>"
      have f1: "follow_from ?q1 rest"
        by (rule follow_from_tail[OF f]) (use True in auto)
      obtain r2 q2 o2 where p: "probe_loop rest ?q1 = (r2, q2, o2)"
        by (cases "probe_loop rest ?q1")
      from Cons.IH[OF f1 p] Cons.prems(2) a req True p show ?thesis
        by (auto simp: handle_task_req split: if_splits)
    next
      case False
      let ?q1 = "q\<lparr>assignments := (assignments q)(s \<mapsto> current q),
            current := current q + 1, remaining := remaining q - 1\<rparr>"
      have f1: "follow_from ?q1 rest"
        by (rule follow_from_tail[OF f]) (use req in auto)
      obtain r2 q2 o2 where p: "probe_loop rest ?q1 = (r2, q2, o2)"
        by (cases "probe_loop rest ?q1")
      from Cons.IH[OF f1 p] Cons.prems(2) a req False p show ?thesis
        by (auto simp: handle_task_req split: if_splits)
    qed
  next
    case unk
    with Cons.prems(2) a show ?thesis by (auto simp: handle_unknown)
  qed
qed


lemma msg_delivery [simp]: "msg (delivery ts i) = ''next''"
  by (simp add: delivery_def messages_task_def)

lemma msg_end [simp]: "msg messages_end = ''no_more_tasks''"
  by (simp add: messages_end_def)

lemma init_fields [simp]:
  "njobs (TaskQueueRoot_init ts n) = n" "tasks (TaskQueueRoot_init ts n) = ts"
  "results (TaskQueueRoot_init ts n) = Map.empty"
  "assignments (TaskQueueRoot_init ts n) = Map.empty"
  "notified (TaskQueueRoot_init ts n) = 0" "current (TaskQueueRoot_init ts n) = 0"
  "remaining (TaskQueueRoot_init ts n) = length ts"
  by (simp_all add: TaskQueueRoot_init_def)

lemma probe_loop_from_init:
  assumes "probe_loop arrs (TaskQueueRoot_init ts n) = (r, q', out)"
  shows "map fst out = take (length out) (requesters arrs)"
    and "map snd out = map (delivery ts) [0..<current q'] @ replicate (notified q') messages_end"
    and "length out = current q' + notified q'"
    and "current q' + remaining q' = length ts"
    and "0 < notified q' \<Longrightarrow> current q' = length ts"
proof -
  from probe_loop_replies[OF assms]
  have ok: "replies_ok arrs (TaskQueueRoot_init ts n) q' out" .
  then show 1: "map fst out = take (length out) (requesters arrs)"
    and 2: "map snd out = map (delivery ts) [0..<current q'] @ replicate (notified q') messages_end"
    and 4: "current q' + remaining q' = length ts"
    by (simp_all add: replies_ok_def)
  from 2 have "length (map snd out) = current q' + notified q'" by simp
  then show "length out = current q' + notified q'" by simp
  show "current q' = length ts" if "0 < notified q'"
    using ok that by (auto simp: replies_ok_def)
qed

lemmas run_defs = handle_assignment_def assign_task_def insert_result_def message_defs
  delivery_def result_message_def TaskQueueRoot_init_def

lemma follow_from_init:
  "results_follow_assignments (length ts) arrs \<Longrightarrow> follow_from (TaskQueueRoot_init ts n) arrs"
  by (simp add: results_follow_assignments_def follow_from_def)

section \<open>The partitioner\<close>

lemma length_sub_arys: "length (sub_arys ks xs) = length ks"
  by (induction ks arbitrary: xs) auto

lemma concat_sub_arys: "concat (sub_arys ks xs) = take (sum_list ks) xs"
proof (induction ks arbitrary: xs)
  case Nil
  then show ?case by simp
next
  case (Cons k ks)
  have "take k xs @ take (sum_list ks) (drop k xs) = take (k + sum_list ks) xs"
    by (simp add: take_add)
  with Cons show ?case by simp
qed

lemma map_length_sub_arys:
  "sum_list ks \<le> length xs \<Longrightarrow> map length (sub_arys ks xs) = ks"
  by (induction ks arbitrary: xs) auto

lemma length_section_sizes: "0 < n \<Longrightarrow> length (section_sizes l n) = n"
  by (simp add: section_sizes_def less_imp_le)

lemma sum_list_section_sizes: "0 < n \<Longrightarrow> sum_list (section_sizes l n) = l"
proof -
  assume n: "0 < n"
  have "l mod n \<le> n" using n by (simp add: less_imp_le)
  then have "(l mod n) * (l div n + 1) + (n - l mod n) * (l div n) = n * (l div n) + l mod n"
    by (simp add: algebra_simps diff_mult_distrib)
  then show ?thesis
    by (simp add: section_sizes_def sum_list_replicate)
qed

lemma set_section_sizes: "set (section_sizes l n) \<subseteq> {l div n, l div n + 1}"
  by (auto simp: section_sizes_def)

lemma take_upt_any: "take k [a..<b] = [a..<a + min k (b - a)]"
proof (cases "a + k \<le> b")
  case True
  then show ?thesis by (simp add: take_upt min_def)
next
  case False
  then show ?thesis by (cases "a \<le> b") (simp_all add: min_def)
qed

lemma sub_arys_upt_runs:
  "g \<in> set (sub_arys ks [a..<b]) \<Longrightarrow> g = [] \<or> g = [hd g..<hd g + length g]"
proof (induction ks arbitrary: a)
  case Nil
  then show ?case by simp
next
  case (Cons k ks)
  from Cons.prems consider "g = take k [a..<b]" | "g \<in> set (sub_arys ks [a + k..<b])"
    by (auto simp: add.commute)
  then show ?case
  proof cases
    case 1
    show ?thesis
    proof (cases "min k (b - a)")
      case 0
      with 1 show ?thesis by (simp add: take_upt_any)
    next
      case (Suc d)
      with 1 have "g = [a..<a + Suc d]" by (simp add: take_upt_any)
      then show ?thesis by (simp add: upt_conv_Cons del: upt_Suc)
    qed
  next
    case 2
    with Cons.IH show ?thesis by blast
  qed
qed

lemma my_new_id_found:
  "r \<in> set (concat groups) \<Longrightarrow>
   \<exists>i. my_new_id r groups = Some i \<and> i < length groups \<and> r \<in> set (groups ! i)"
proof (induction groups)
  case Nil
  then show ?case by simp
next
  case (Cons g gs)
  show ?case
  proof (cases "r \<in> set g")
    case True
    then show ?thesis by simp
  next
    case False
    with Cons.prems have "r \<in> set (concat gs)" by simp
    from Cons.IH[OF this] obtain i where
      "my_new_id r gs = Some i" "i < length gs" "r \<in> set (gs ! i)" by blast
    with False have "my_new_id r (g # gs) = Some (Suc i) \<and> Suc i < length (g # gs)
        \<and> r \<in> set ((g # gs) ! Suc i)" by simp
    then show ?thesis by blast
  qed
qed

lemma my_new_id_unique:
  "my_new_id r groups = Some i \<Longrightarrow> distinct (concat groups) \<Longrightarrow>
   j < length groups \<Longrightarrow> r \<in> set (groups ! j) \<Longrightarrow> j = i"
proof (induction groups arbitrary: i j)
  case Nil
  then show ?case by simp
next
  case (Cons g gs)
  show ?case
  proof (cases "r \<in> set g")
    case True
    with Cons.prems(1) have i: "i = 0" by simp
    show ?thesis
    proof (cases j)
      case 0
      with i show ?thesis by simp
    next
      case (Suc j')
      with Cons.prems(3,4) have "r \<in> set (concat gs)" by auto
      with True Cons.prems(2) show ?thesis by auto
    qed
  next
    case False
    with Cons.prems(1) obtain i' where i': "i = Suc i'" "my_new_id r gs = Some i'"
      by auto
    from False Cons.prems(4) obtain j' where j': "j = Suc j'" by (cases j) auto
    with Cons.prems(3,4) have "j' < length gs" "r \<in> set (gs ! j')" by auto
    with Cons.IH[OF i'(2)] Cons.prems(2) have "j' = i'" by simp
    with i' j' show ?thesis by simp
  qed
qed

lemma array_split_arange:
  assumes "0 < n" "n < int S"
  shows "\<exists>gs. array_split (arange 1 S) n = Inr gs \<and> length gs = nat n \<and>
           concat gs = [1..<S] \<and>
           (\<forall>g\<in>set gs. \<forall>h\<in>set gs. length g \<le> length h + 1) \<and>
           (\<forall>g\<in>set gs. g \<noteq> [] \<and> g = [hd g..<hd g + length g])"
proof -
  let ?l = "S - 1" and ?n = "nat n"
  let ?gs = "sub_arys (section_sizes ?l ?n) [1..<S]"
  from assms have n: "0 < ?n" "?n \<le> ?l" by auto
  have sum: "sum_list (section_sizes ?l ?n) = ?l"
    using n by (simp add: sum_list_section_sizes)
  have lens: "map length ?gs = section_sizes ?l ?n"
    by (rule map_length_sub_arys) (use sum in simp)
  have each: "length g \<in> {?l div ?n, ?l div ?n + 1}" if "g \<in> set ?gs" for g
  proof -
    from that have "length g \<in> set (map length ?gs)" by simp
    with lens set_section_sizes[of ?l ?n] show ?thesis by auto
  qed
  have pos: "1 \<le> ?l div ?n"
    using n by (simp add: Suc_le_eq div_greater_zero_iff)
  have ne: "g \<noteq> []" if "g \<in> set ?gs" for g
    using each[OF that] pos by auto
  have "array_split (arange 1 S) n = Inr ?gs"
    using assms by (simp add: array_split_def arange_def)
  moreover have "length ?gs = ?n"
    using n by (simp add: length_sub_arys length_section_sizes)
  moreover have "concat ?gs = [1..<S]"
    using sum by (simp add: concat_sub_arys)
  moreover have "\<forall>g\<in>set ?gs. \<forall>h\<in>set ?gs. length g \<le> length h + 1"
  proof (intro ballI)
    fix g h assume "g \<in> set ?gs" "h \<in> set ?gs"
    from each[OF this(1)] each[OF this(2)] show "length g \<le> length h + 1" by auto
  qed
  moreover have "\<forall>g\<in>set ?gs. g \<noteq> [] \<and> g = [hd g..<hd g + length g]"
    using ne sub_arys_upt_runs[of _ "section_sizes ?l ?n" 1 S] by blast
  ultimately show ?thesis by blast
qed

lemma partition_processes_ok:
  assumes "0 < n" "n < int S" "rank < S"
    and "n = (if J \<le> 0 then int S - 1 else J)"
  shows "\<exists>gs i. partition_processes True S rank J = Inr (n, [0] # gs, i) \<and>
          length gs = nat n \<and> concat gs = [1..<S] \<and>
          (\<forall>g\<in>set gs. \<forall>h\<in>set gs. length g \<le> length h + 1) \<and>
          (\<forall>g\<in>set gs. g \<noteq> [] \<and> g = [hd g..<hd g + length g]) \<and>
          i < length ([0] # gs) \<and> rank \<in> set (([0] # gs) ! i) \<and>
          (\<forall>j<length ([0] # gs). rank \<in> set (([0] # gs) ! j) \<longrightarrow> j = i)"
proof -
  from array_split_arange[OF assms(1,2)] obtain gs where
    gs: "array_split (arange 1 S) n = Inr gs" "length gs = nat n" "concat gs = [1..<S]"
      "\<forall>g\<in>set gs. \<forall>h\<in>set gs. length g \<le> length h + 1"
      "\<forall>g\<in>set gs. g \<noteq> [] \<and> g = [hd g..<hd g + length g]" by blast
  have cc: "concat ([0] # gs) = [0..<S]"
    using gs(3) assms(3) by (simp add: upt_conv_Cons)
  with assms(3) have "rank \<in> set (concat ([0] # gs))" by simp
  from my_new_id_found[OF this] obtain i where
    i: "my_new_id rank ([0] # gs) = Some i" "i < length ([0] # gs)"
       "rank \<in> set (([0] # gs) ! i)" by blast
  have d: "distinct (concat ([0] # gs))" unfolding cc by simp
  have u: "\<forall>j<length ([0] # gs). rank \<in> set (([0] # gs) ! j) \<longrightarrow> j = i"
    using my_new_id_unique[OF i(1) d] by blast
  have "partition_processes True S rank J = Inr (n, [0] # gs, i)"
    using assms gs(1) i(1) by (simp add: partition_processes_def Let_def)
  with gs i(2,3) u show ?thesis by blast
qed


section \<open>The drivers: refusal and the order of push and pop\<close>


lemma popped_after_run_iff:
  "popped_after_run (PushWithIds ids # run @ [PopComm]) \<longleftrightarrow> PopComm \<notin> set run"
  by (simp add: popped_after_run_def)

lemma PopComm_sends: "PopComm \<notin> set (sends out)"
  by (auto simp: sends_def)

lemma PopComm_loop_body: "PopComm \<notin> set (loop_body u leader task)"
  by (cases u) (auto simp: send_result_def Let_def)

lemma PopComm_for_task_in: "PopComm \<notin> set (fst (for_task_in u leader rs))"
  by (induction rs)
     (auto simp: get_next_send_def PopComm_loop_body split: sum.splits prod.splits)

lemmas part_defs = partition_processes_def array_split_def arange_def section_sizes_def
        upt_conv_Cons numeral_2_eq_2 numeral_3_eq_3

section \<open>Runs of the whole protocol\<close>










section \<open>The invariant of runs that submit results\<close>




lemma get_next_reply_delivery [simp]: "get_next_reply (delivery ts t) = Inr (ts ! t)"
  by (simp add: get_next_reply_def delivery_def messages_task_def messages_end_def)

lemma get_next_reply_end [simp]: "get_next_reply messages_end = Inl StopIteration"
  by (simp add: get_next_reply_def messages_end_def)

















lemma msg_result_message [simp]:
  "msg (result_message v) = ''result''" "mvalue (result_message v) = Some v"
  by (simp_all add: result_message_def messages_result_def)

lemma msg_task_req [simp]: "msg messages_task_req = ''task_req''"
  by (simp add: messages_task_req_def)







section \<open>Runs with an empty task list\<close>















section \<open>A complete run exists\<close>






section \<open>The properties claimed\<close>



text \<open>
  Claim C2. Whatever arrives at the coordinator, its replies go to the senders of
  the task requests in arrival order; they carry the tasks with ids \<open>0, 1, 2, ...\<close> in that
  order while tasks remain, and are terminate messages afterwards: the \<open>k\<close>-th task request
  is answered with task id \<open>k\<close>, the lowest one not yet handed out. When the loop has
  stopped (a complete run, with at least one job), the task deliveries sent are exactly those
  for the ids \<open>0 .. L-1\<close>, each once, in order.
\<close>

theorem tasks_delivered_in_order:
  assumes "probe_loop arrs (TaskQueueRoot_init ts n) = (r, q', out)"
  shows "map fst out = take (length out) (requesters arrs) \<and>
         map snd out = map (delivery ts) [0..<min (length out) (length ts)]
                         @ replicate (length out - length ts) messages_end \<and>
         (0 < n \<and> r = Stopped \<longrightarrow>
            filter (\<lambda>m. msg m = ''next'') (map snd out) = map (delivery ts) [0..<length ts])"
proof -
  note f = probe_loop_from_init[OF assms]
  have a: "min (length out) (length ts) = current q'" "length out - length ts = notified q'"
    using f(3,4,5) by (cases "notified q'"; simp)+
  have "filter (\<lambda>m. msg m = ''next'') (map snd out) = map (delivery ts) [0..<length ts]"
    if "0 < n" "r = Stopped"
  proof -
    from probe_loop_ending[OF assms] that have "notified q' = n" by simp
    with that f(5) have "current q' = length ts" by simp
    with f(2) show ?thesis by (simp add: filter_map comp_def)
  qed
  with f(1,2) a show ?thesis by simp
qed

text \<open>
  An instance: a complete run with one task and two subgroup leaders.
\<close>

theorem tasks_delivered_in_order_witness:
  "probe_loop [(2, messages_task_req), (1, messages_task_req), (2, result_message 7),
               (2, messages_task_req), (1, messages_task_req)]
       (TaskQueueRoot_init [5::nat] 2)
     = (Stopped, \<lparr>njobs = 2, tasks = [5], results = [0 \<mapsto> 7], assignments = [2 \<mapsto> 0],
                  notified = 2, current = 1, remaining = 0\<rparr>,
        [(2, delivery [5] 0), (1, messages_end), (2, messages_end)])
   \<and> filter (\<lambda>m. msg m = ''next'')
        (map snd [(2, delivery [5::nat] 0), (1, messages_end), (2, messages_end)])
     = map (delivery [5]) [0..<length [5::nat]]"
proof -
  have run: "probe_loop [(2, messages_task_req), (1, messages_task_req), (2, result_message 7),
               (2, messages_task_req), (1, messages_task_req)]
       (TaskQueueRoot_init [5::nat] 2)
     = (Stopped, \<lparr>njobs = 2, tasks = [5], results = [0 \<mapsto> 7], assignments = [2 \<mapsto> 0],
                  notified = 2, current = 1, remaining = 0\<rparr>,
        [(2, delivery [5] 0), (1, messages_end), (2, messages_end)])"
    by (simp add: handle_assignment_def assign_task_def insert_result_def message_defs
        delivery_def result_message_def TaskQueueRoot_init_def)
  from tasks_delivered_in_order[OF run] run show ?thesis by simp
qed








text \<open>
  Claim C6, amended. In \<open>dynamic_parallel_objects\<close>, on the coordinator and on a
  worker, a call that ends without an exception has pushed the group first and popped it
  last, after the dispatch loop or the iteration and after the closing broadcast; a call that
  raises or stalls does not pop the group.
\<close>

theorem iterate_dynamic_pops_after_run:
  assumes "dynamic_parallel_objects ts J storage w = (effs, r)"
  shows "(r = Returns () \<longrightarrow> popped_after_run effs) \<and>
         (r \<noteq> Returns () \<longrightarrow> PopComm \<notin> set effs)"
proof (cases "partition_processes (capable w) (my_size w) (my_rank w) J")
  case (Inl e)
  with assms show ?thesis by (auto simp: dynamic_parallel_objects_def)
next
  case (Inr p)
  obtain n groups i where p: "p = (n, groups, i)" by (cases p)
  let ?u = "case storage of None \<Rightarrow> YieldTasks | Some g \<Rightarrow> YieldSlots g"
  show ?thesis
  proof (cases "my_rank w = 0")
    case True
    obtain e q' out where l: "probe_loop (arrivals w) (TaskQueueRoot_init ts (nat n)) = (e, q', out)"
      by (cases "probe_loop (arrivals w) (TaskQueueRoot_init ts (nat n))")
    show ?thesis
    proof (cases e)
      case Stopped
      with assms Inr p True l obtain pub where
        "effs = PushWithIds (groups ! i) # (sends out @ pub) @ [PopComm]"
        "PopComm \<notin> set pub" "r = Returns ()"
        by (auto simp: dynamic_parallel_objects_def Let_def split: option.splits)
      then show ?thesis
        using popped_after_run_iff[of "groups ! i" "sends out @ pub"] PopComm_sends[of out]
        by simp
    next
      case (Raised x)
      with assms Inr p True l show ?thesis
        by (auto simp: dynamic_parallel_objects_def Let_def PopComm_sends)
    next
      case Blocked
      with assms Inr p True l show ?thesis
        by (auto simp: dynamic_parallel_objects_def Let_def PopComm_sends)
    qed
  next
    case False
    obtain fx e where l: "for_task_in ?u (hd (groups ! i) = my_rank w) (replies w) = (fx, e)"
      by (cases "for_task_in ?u (hd (groups ! i) = my_rank w) (replies w)")
    from PopComm_for_task_in[of ?u "hd (groups ! i) = my_rank w" "replies w"] l
    have nf: "PopComm \<notin> set fx" by simp
    show ?thesis
    proof (cases e)
      case Stopped
      with assms Inr p False l obtain pub where
        "effs = PushWithIds (groups ! i) # (fx @ pub) @ [PopComm]"
        "PopComm \<notin> set pub" "r = Returns ()"
        by (auto simp: dynamic_parallel_objects_def Let_def split: option.splits)
      then show ?thesis
        using popped_after_run_iff[of "groups ! i" "fx @ pub"] nf by simp
    next
      case (Raised x)
      with assms Inr p False l nf show ?thesis
        by (auto simp: dynamic_parallel_objects_def Let_def)
    next
      case Blocked
      with assms Inr p False l nf show ?thesis
        by (auto simp: dynamic_parallel_objects_def Let_def)
    qed
  qed
qed

text \<open>
  That the group is popped only after the run, in both drivers and whether the run
  succeeds or fails, does not hold. In \<open>task_queue\<close> the pop comes right after the
  push, before the queue is run: on the coordinator the terminate message and the
  closing broadcast follow the pop. In \<open>dynamic_parallel_objects\<close>, when the
  coordinator meets an unknown message the call ends with \<open>RuntimeError\<close> and the
  group is never popped.
\<close>

theorem subgroup_popped_last_counterexample:
  "fst (task_queue (\<lambda>x. x) ([]::nat list) 0
      \<lparr>capable = True, my_size = 2, my_rank = 0, arrivals = [(1, messages_task_req)],
       replies = [], final = Map.empty\<rparr>)
     = [PushWithIds [0], PopComm, Send 1 2 messages_end, Bcast Map.empty] \<and>
   \<not> popped_after_run (fst (task_queue (\<lambda>x. x) ([]::nat list) 0
      \<lparr>capable = True, my_size = 2, my_rank = 0, arrivals = [(1, messages_task_req)],
       replies = [], final = Map.empty\<rparr>)) \<and>
   dynamic_parallel_objects ([]::nat list) 0 None
      \<lparr>capable = True, my_size = 2, my_rank = 0,
       arrivals = [(1, \<lparr>msg = ''bogus'', mvalue = None\<rparr>)], replies = [], final = Map.empty\<rparr>
     = ([PushWithIds [0]], Raises RuntimeError) \<and>
   \<not> popped_after_run (fst (dynamic_parallel_objects ([]::nat list) 0 None
      \<lparr>capable = True, my_size = 2, my_rank = 0,
       arrivals = [(1, \<lparr>msg = ''bogus'', mvalue = None\<rparr>)], replies = [], final = Map.empty\<rparr>))"
  by (simp add: task_queue_def dynamic_parallel_objects_def TaskQueueRoot_run_def sends_def
      part_defs run_defs popped_after_run_def)

text \<open>
  An instance: a run that returns and a run that raises.
\<close>

theorem iterate_dynamic_pops_after_run_witness:
  "dynamic_parallel_objects ([]::nat list) 0 (Some (\<lambda>x. x))
      \<lparr>capable = True, my_size = 2, my_rank = 0, arrivals = [(1, messages_task_req)],
       replies = [], final = Map.empty\<rparr>
     = ([PushWithIds [0], Send 1 2 messages_end, Bcast Map.empty, StorageUpdate Map.empty,
         PopComm], Returns ()) \<and>
   popped_after_run [PushWithIds [0], Send 1 2 messages_end, Bcast (Map.empty :: nat \<rightharpoonup> nat),
         StorageUpdate Map.empty, PopComm] \<and>
   dynamic_parallel_objects ([]::nat list) 0 None
      \<lparr>capable = True, my_size = 2, my_rank = 0,
       arrivals = [(1, \<lparr>msg = ''bogus'', mvalue = None\<rparr>)], replies = [], final = Map.empty\<rparr>
     = ([PushWithIds [0]], Raises RuntimeError) \<and>
   PopComm \<notin> set [PushWithIds [0] :: nat effect]"
proof -
  have a: "dynamic_parallel_objects ([]::nat list) 0 (Some (\<lambda>x. x))
      \<lparr>capable = True, my_size = 2, my_rank = 0, arrivals = [(1, messages_task_req)],
       replies = [], final = Map.empty\<rparr>
     = ([PushWithIds [0], Send 1 2 messages_end, Bcast Map.empty, StorageUpdate Map.empty,
         PopComm], Returns ())"
    by (simp add: dynamic_parallel_objects_def sends_def part_defs run_defs)
  have b: "dynamic_parallel_objects ([]::nat list) 0 None
      \<lparr>capable = True, my_size = 2, my_rank = 0,
       arrivals = [(1, \<lparr>msg = ''bogus'', mvalue = None\<rparr>)], replies = [], final = Map.empty\<rparr>
     = ([PushWithIds [0]], Raises RuntimeError)"
    by (simp add: dynamic_parallel_objects_def sends_def part_defs run_defs)
  from iterate_dynamic_pops_after_run[OF a] iterate_dynamic_pops_after_run[OF b] a b
  show ?thesis by simp
qed

text \<open>
  Claim C7. A message whose kind is neither \<open>result\<close> nor \<open>task_req\<close> makes
  \<open>handle_assignment\<close> raise \<open>RuntimeError\<close> with the scheduler unchanged and nothing
  sent; the probe loop and \<open>TaskQueueRoot.run\<close> end with that exception. For a message of
  one of the two recognised kinds the handler never raises \<open>RuntimeError\<close>.
\<close>

theorem unknown_kind_aborts:
  "(msg m \<noteq> ''result'' \<and> msg m \<noteq> ''task_req'' \<longrightarrow>
      handle_assignment s m q = (Some RuntimeError, q, []) \<and>
      (\<forall>pre q0 out rest. probe_loop pre q0 = (Blocked, q, out) \<longrightarrow>
         probe_loop (pre @ (s, m) # rest) q0 = (Raised RuntimeError, q, out) \<and>
         snd (TaskQueueRoot_run (pre @ (s, m) # rest) q0) = Raises RuntimeError)) \<and>
   (msg m = ''result'' \<or> msg m = ''task_req'' \<longrightarrow>
      fst (handle_assignment s m q) \<noteq> Some RuntimeError)"
proof (intro conjI impI allI)
  assume u: "msg m \<noteq> ''result'' \<and> msg m \<noteq> ''task_req''"
  then show h: "handle_assignment s m q = (Some RuntimeError, q, [])"
    by (simp add: handle_unknown)
  fix pre q0 out rest
  assume "probe_loop pre q0 = (Blocked, q, out)"
  from probe_loop_append[OF this, of "(s, m) # rest"] h
  show p: "probe_loop (pre @ (s, m) # rest) q0 = (Raised RuntimeError, q, out)"
    by simp
  then show "snd (TaskQueueRoot_run (pre @ (s, m) # rest) q0) = Raises RuntimeError"
    by (simp add: TaskQueueRoot_run_def)
next
  assume "msg m = ''result'' \<or> msg m = ''task_req''"
  then show "fst (handle_assignment s m q) \<noteq> Some RuntimeError"
    by (auto simp: handle_result handle_task_req split: option.splits if_splits)
qed

text \<open>
  An instance: an unknown kind as the first message, and a task request.
\<close>

theorem unknown_kind_aborts_witness:
  "handle_assignment 1 \<lparr>msg = ''bogus'', mvalue = None\<rparr> (TaskQueueRoot_init [5::nat] 1)
     = (Some RuntimeError, TaskQueueRoot_init [5] 1, []) \<and>
   probe_loop ([] @ (1, \<lparr>msg = ''bogus'', mvalue = None\<rparr>) # []) (TaskQueueRoot_init [5::nat] 1)
     = (Raised RuntimeError, TaskQueueRoot_init [5] 1, []) \<and>
   fst (handle_assignment 1 messages_task_req (TaskQueueRoot_init [5::nat] 1)) \<noteq> Some RuntimeError"
proof -
  let ?q = "TaskQueueRoot_init [5::nat] 1"
  let ?m = "\<lparr>msg = ''bogus'', mvalue = None :: nat option\<rparr>"
  have k: "msg ?m \<noteq> ''result'' \<and> msg ?m \<noteq> ''task_req''" by simp
  have b: "probe_loop [] ?q = (Blocked, ?q, [])" by simp
  have r: "msg (messages_task_req :: nat message) = ''result'' \<or>
           msg (messages_task_req :: nat message) = ''task_req''"
    by (simp add: messages_task_req_def)
  from unknown_kind_aborts[of ?m 1 ?q] k b
  have 1: "handle_assignment 1 ?m ?q = (Some RuntimeError, ?q, [])"
    and 2: "probe_loop ([] @ (1, ?m) # []) ?q = (Raised RuntimeError, ?q, [])"
    by blast+
  from unknown_kind_aborts[of messages_task_req 1 ?q] r
  have 3: "fst (handle_assignment 1 messages_task_req ?q) \<noteq> Some RuntimeError"
    by blast
  from 1 2 3 show ?thesis by blast
qed

text \<open>
  Claim C8. For \<open>S > 1\<close> processes and a job count \<open>1 \<le> J < S\<close> the partitioner
  succeeds with job count \<open>J\<close>; the groups are \<open>[0]\<close> followed by exactly \<open>J\<close> groups,
  whose concatenation is the address list \<open>1 .. S-1\<close> in order; any two of them differ in
  size by at most one; each is a non-empty run of consecutive addresses; and the index
  computed for the calling rank is the only group index whose group holds that rank.
\<close>

theorem partitioner_groups:
  assumes "1 < S" "1 \<le> J" "J < int S" "rank < S"
  shows "\<exists>gs i. partition_processes True S rank J = Inr (J, [0] # gs, i) \<and>
          length gs = nat J \<and> concat gs = [1..<S] \<and>
          (\<forall>g\<in>set gs. \<forall>h\<in>set gs. length g \<le> length h + 1) \<and>
          (\<forall>g\<in>set gs. g \<noteq> [] \<and> g = [hd g..<hd g + length g]) \<and>
          i < length ([0] # gs) \<and> rank \<in> set (([0] # gs) ! i) \<and>
          (\<forall>j<length ([0] # gs). rank \<in> set (([0] # gs) ! j) \<longrightarrow> j = i)"
  using partition_processes_ok[of J S rank J] assms by simp

text \<open>
  An instance: six processes, two jobs, seen from rank 4.
\<close>

theorem partitioner_groups_witness:
  "(1::nat) < 6 \<and> (1::int) \<le> 2 \<and> (2::int) < int 6 \<and> (4::nat) < 6 \<and>
   partition_processes True 6 4 2 = Inr (2, [[0], [1, 2, 3], [4, 5]], 2) \<and>
   (\<exists>gs i. partition_processes True 6 4 2 = Inr (2, [0] # gs, i) \<and>
          length gs = nat 2 \<and> concat gs = [1..<6] \<and>
          (\<forall>g\<in>set gs. \<forall>h\<in>set gs. length g \<le> length h + 1) \<and>
          (\<forall>g\<in>set gs. g \<noteq> [] \<and> g = [hd g..<hd g + length g]) \<and>
          i < length ([0] # gs) \<and> 4 \<in> set (([0] # gs) ! i) \<and>
          (\<forall>j<length ([0] # gs). 4 \<in> set (([0] # gs) ! j) \<longrightarrow> j = i))"
proof -
  have "partition_processes True 6 4 2 = Inr (2, [[0], [1, 2, 3], [4, 5]], 2)"
    by code_simp
  with partitioner_groups[of 6 2 4] show ?thesis by simp
qed



text \<open>
  Claim C10. If the assignment table has no entry for the source, \<open>insert_result\<close>
  raises \<open>KeyError\<close> for that source, and so does \<open>handle_assignment\<close> on a result-delivery
  from it, leaving the scheduler unchanged. If every result-delivery among the arrivals is
  preceded by a task assignment to the same source, the probe loop started on a fresh
  scheduler never ends with that \<open>KeyError\<close>.
\<close>

theorem result_from_unassigned_source:
  "(assignments q s = None \<longrightarrow>
      insert_result s v q = Inl (KeyError (SourceKey s)) \<and>
      handle_assignment s (result_message v) q = (Some (KeyError (SourceKey s)), q, [])) \<and>
   (results_follow_assignments (length ts) arrs \<longrightarrow>
      fst (probe_loop arrs (TaskQueueRoot_init ts n)) \<noteq> Raised (KeyError (SourceKey s)))"
proof (intro conjI impI)
  assume "assignments q s = None"
  then show "insert_result s v q = Inl (KeyError (SourceKey s))"
    by (simp add: insert_result_def)
  then show "handle_assignment s (result_message v) q = (Some (KeyError (SourceKey s)), q, [])"
    by (simp add: handle_assignment_def result_message_def message_defs)
next
  assume "results_follow_assignments (length ts) arrs"
  then have f: "follow_from (TaskQueueRoot_init ts n) arrs" by (rule follow_from_init)
  obtain r q' out where p: "probe_loop arrs (TaskQueueRoot_init ts n) = (r, q', out)"
    by (cases "probe_loop arrs (TaskQueueRoot_init ts n)")
  from probe_loop_no_KeyError[OF f p] p
  show "fst (probe_loop arrs (TaskQueueRoot_init ts n)) \<noteq> Raised (KeyError (SourceKey s))"
    by simp
qed

text \<open>
  An instance: a result with no assignment before it, and a request followed by a result.
\<close>

theorem result_from_unassigned_source_witness:
  "assignments (TaskQueueRoot_init [5::nat] 1) 1 = None \<and>
   handle_assignment 1 (result_message 7) (TaskQueueRoot_init [5::nat] 1)
     = (Some (KeyError (SourceKey 1)), TaskQueueRoot_init [5] 1, []) \<and>
   results_follow_assignments (length [5::nat]) [(1, messages_task_req), (1, result_message (7::nat))] \<and>
   fst (probe_loop [(1, messages_task_req), (1, result_message 7)] (TaskQueueRoot_init [5::nat] 1))
     \<noteq> Raised (KeyError (SourceKey 1))"
proof -
  have a: "assignments (TaskQueueRoot_init [5::nat] 1) 1 = None"
    by (simp add: TaskQueueRoot_init_def)
  have f: "results_follow_assignments (length [5::nat])
             [(1, messages_task_req), (1, result_message (7::nat))]"
    by (simp add: results_follow_assignments_def requesters_def result_message_def
        message_defs All_less_Suc Ex_less_Suc)
  from result_from_unassigned_source[of "TaskQueueRoot_init [5::nat] 1" 1 7 "[5::nat]"
      "[(1, messages_task_req), (1, result_message (7::nat))]" 1] a f
  show ?thesis by blast
qed

end
